theory Spec2Isabelle
  imports Main
begin

section \<open>The allocation tracker of Detect_prevent_leak_mry.cpp\<close>

text \<open>
  The program keeps one global singly linked list of \<open>Node\<close>s, each holding the
  address and the size of a block obtained from \<open>malloc\<close>. The nodes themselves are
  \<open>malloc\<close>ed too. The model keeps the list where the program keeps it: in a store of
  nodes addressed by pointers, with the global \<open>head\<close>. The raw allocator is the
  environment: what each \<open>malloc\<close> call returns is an input of the model, and the state
  records which blocks the raw allocator currently has handed out, the sequence of raw
  calls made, and what was written to \<open>cout\<close>.

  Pointers and \<open>size_t\<close> values are natural numbers; the program only compares them
  (with \<open>NULL\<close>, with \<open>0\<close>, with each other) and never computes with them.
\<close>

subsection \<open>Data\<close>

type_synonym addr = nat

abbreviation NULL :: addr where
  "NULL \<equiv> 0"

text \<open>\<open>struct Node\<close>; the fields \<open>size\<close> and \<open>next\<close> are primed, the plain names being
  taken in Isabelle.\<close>

record Node =
  ptr :: addr
  size' :: nat
  next' :: addr

text \<open>\<open>sizeof(Node)\<close> on an LP64 target; the value only appears in the log of raw calls.\<close>

definition sizeof_Node :: nat where
  "sizeof_Node = 24"

datatype raw_call = RawMalloc nat addr | RawFree addr

text \<open>The lines written to \<open>cout\<close>.\<close>

datatype msg =
    AllocationFailed       \<comment> \<open>"Memory allocation Failed!"\<close>
  | TrackingFailed         \<comment> \<open>"Memory allocation for tracking failed!"\<close>
  | UntrackedFree addr     \<comment> \<open>"Attempted to free untrack pointer:" ptr\<close>
  | NoLeaks                \<comment> \<open>"No memory leaks detected."\<close>
  | LeaksDetected          \<comment> \<open>"Memory leaks detected:"\<close>
  | Leaked addr nat        \<comment> \<open>"Leaked memory at: " ptr ", Size: " size "bytes"\<close>

text \<open>What the C standard leaves undefined: reading or writing through a pointer to no
  live node, and \<open>free\<close> of an address that is not a live block.\<close>

datatype fault = InvalidDeref addr | InvalidFree addr

record state =
  head :: addr
  nodes :: "addr \<rightharpoonup> Node"
  live :: "addr set"
  calls :: "raw_call list"
  out :: "msg list"

definition init :: state where
  "init = \<lparr>head = NULL, nodes = Map.empty, live = {}, calls = [], out = []\<rparr>"

subsection \<open>The raw allocator and the console\<close>

text \<open>\<open>malloc(n)\<close> returning \<open>r\<close>: the environment chooses \<open>r\<close>, \<open>NULL\<close> for failure.\<close>

definition raw_malloc :: "state \<Rightarrow> nat \<Rightarrow> addr \<Rightarrow> state" where
  "raw_malloc s n r =
     s\<lparr>live := (if r = NULL then live s else insert r (live s)),
       calls := calls s @ [RawMalloc n r]\<rparr>"

text \<open>\<open>free(a)\<close>: the block leaves the live set and whatever object lay there is gone.\<close>

definition raw_free :: "state \<Rightarrow> addr \<Rightarrow> fault + state" where
  "raw_free s a =
     (if a = NULL then Inr (s\<lparr>calls := calls s @ [RawFree a]\<rparr>)
      else if a \<in> live s then
        Inr (s\<lparr>live := live s - {a}, nodes := (nodes s)(a := None),
              calls := calls s @ [RawFree a]\<rparr>)
      else Inl (InvalidFree a))"

definition cout :: "state \<Rightarrow> msg \<Rightarrow> state" where
  "cout s m = s\<lparr>out := out s @ [m]\<rparr>"

subsection \<open>\<open>my_malloc\<close>\<close>

text \<open>\<open>sz\<close> is the argument \<open>size\<close>; \<open>r1\<close> is what \<open>malloc(size)\<close> returns and
  \<open>r2\<close> what \<open>malloc(sizeof(Node))\<close> returns, when the call is reached.\<close>

definition my_malloc :: "state \<Rightarrow> nat \<Rightarrow> addr \<Rightarrow> addr \<Rightarrow> fault + (state \<times> addr)" where
  "my_malloc s sz r1 r2 =
     (if sz = 0 then Inr (s, NULL)
      else
        let s1 = raw_malloc s sz r1 in
        if r1 = NULL then Inr (cout s1 AllocationFailed, NULL)
        else
          let s2 = raw_malloc s1 sizeof_Node r2 in
          if r2 = NULL then
            (case raw_free s2 r1 of
               Inl f \<Rightarrow> Inl f
             | Inr s3 \<Rightarrow> Inr (cout s3 TrackingFailed, NULL))
          else
            Inr (s2\<lparr>nodes := (nodes s2)(r2 \<mapsto> \<lparr>ptr = r1, size' = sz, next' = head s2\<rparr>),
                    head := r2\<rparr>, r1))"

text \<open>What the caller of \<open>my_malloc\<close> receives: the pointer returned.\<close>

definition value_returned :: "fault + (state \<times> addr) \<Rightarrow> addr option" where
  "value_returned r = (case r of Inl f \<Rightarrow> None | Inr (s, a) \<Rightarrow> Some a)"

subsection \<open>\<open>my_free\<close>\<close>

text \<open>The body of the \<open>if(current->ptr == ptr)\<close> branch, \<open>c\<close> being the node read at
  \<open>current\<close>: unlink, \<open>free(current->ptr)\<close>, \<open>free(current)\<close>.\<close>

definition unlink :: "state \<Rightarrow> addr \<Rightarrow> Node \<Rightarrow> fault + state" where
  "unlink s previous c =
     (if previous = NULL then Inr (s\<lparr>head := next' c\<rparr>)
      else
        (case nodes s previous of
           None \<Rightarrow> Inl (InvalidDeref previous)
         | Some pn \<Rightarrow> Inr (s\<lparr>nodes := (nodes s)(previous \<mapsto> pn\<lparr>next' := next' c\<rparr>)\<rparr>)))"

definition release :: "state \<Rightarrow> addr \<Rightarrow> fault + state" where
  "release s current =
     (case nodes s current of
        None \<Rightarrow> Inl (InvalidDeref current)
      | Some c \<Rightarrow>
          (case raw_free s (ptr c) of
             Inl f \<Rightarrow> Inl f
           | Inr s1 \<Rightarrow> raw_free s1 current))"

definition remove_node :: "state \<Rightarrow> addr \<Rightarrow> addr \<Rightarrow> Node \<Rightarrow> fault + state" where
  "remove_node s current previous c =
     (case unlink s previous c of
        Inl f \<Rightarrow> Inl f
      | Inr s1 \<Rightarrow> release s1 current)"

text \<open>The \<open>while(current != NULL)\<close> loop together with the statement after it, which is
  reached only when the loop ends without the \<open>return\<close>. The result \<open>None\<close> stands for a
  loop that never ends.\<close>

partial_function (option) my_free_loop ::
  "state \<Rightarrow> addr \<Rightarrow> addr \<Rightarrow> addr \<Rightarrow> (fault + state) option" where
  "my_free_loop s p current previous =
     (if current = NULL then Some (Inr (cout s (UntrackedFree p)))
      else
        (case nodes s current of
           None \<Rightarrow> Some (Inl (InvalidDeref current))
         | Some c \<Rightarrow>
             if ptr c = p then Some (remove_node s current previous c)
             else my_free_loop s p (next' c) current))"

definition my_free :: "state \<Rightarrow> addr \<Rightarrow> (fault + state) option" where
  "my_free s p = (if p = NULL then Some (Inr s) else my_free_loop s p (head s) NULL)"

subsection \<open>\<open>Report_memory_leaks\<close>\<close>

partial_function (option) report_loop :: "state \<Rightarrow> addr \<Rightarrow> (fault + state) option" where
  "report_loop s current =
     (if current = NULL then Some (Inr s)
      else
        (case nodes s current of
           None \<Rightarrow> Some (Inl (InvalidDeref current))
         | Some c \<Rightarrow> report_loop (cout s (Leaked (ptr c) (size' c))) (next' c)))"

definition Report_memory_leaks :: "state \<Rightarrow> (fault + state) option" where
  "Report_memory_leaks s =
     (if head s = NULL then Some (Inr (cout s NoLeaks))
      else report_loop (cout s LeaksDetected) (head s))"

subsection \<open>Sequences of calls\<close>

text \<open>A client's call, with the raw allocator's answers for \<open>my_malloc\<close>, and what the
  call returns: the pointer of \<open>my_malloc\<close>, nothing for the two \<open>void\<close> functions.\<close>

datatype op = Malloc nat addr addr | Free addr | Report

datatype ret = Returned addr | Void

definition returning :: "(fault + state) option \<Rightarrow> (fault + state \<times> ret) option" where
  "returning r =
     (case r of
        None \<Rightarrow> None
      | Some (Inl f) \<Rightarrow> Some (Inl f)
      | Some (Inr s) \<Rightarrow> Some (Inr (s, Void)))"

fun exec :: "state \<Rightarrow> op \<Rightarrow> (fault + state \<times> ret) option" where
  "exec s (Malloc sz r1 r2) =
     (case my_malloc s sz r1 r2 of
        Inl f \<Rightarrow> Some (Inl f)
      | Inr (s', a) \<Rightarrow> Some (Inr (s', Returned a)))"
| "exec s (Free p) = returning (my_free s p)"
| "exec s Report = returning (Report_memory_leaks s)"

fun run :: "state \<Rightarrow> op list \<Rightarrow> (fault + state \<times> ret list) option" where
  "run s [] = Some (Inr (s, []))"
| "run s (x # xs) =
     (case exec s x of
        None \<Rightarrow> None
      | Some (Inl f) \<Rightarrow> Some (Inl f)
      | Some (Inr (s', r)) \<Rightarrow>
          (case run s' xs of
             None \<Rightarrow> None
           | Some (Inl f) \<Rightarrow> Some (Inl f)
           | Some (Inr (s'', rs)) \<Rightarrow> Some (Inr (s'', r # rs))))"

text \<open>What the C standard promises of \<open>malloc\<close>: a pointer it returns is \<open>NULL\<close> or the
  address of a block distinct from every block currently allocated.\<close>

fun malloc_fresh :: "state \<Rightarrow> op \<Rightarrow> bool" where
  "malloc_fresh s (Malloc sz r1 r2) =
     (sz = 0 \<or> r1 = NULL \<or> (r1 \<notin> live s \<and> (r2 = NULL \<or> (r2 \<notin> live s \<and> r2 \<noteq> r1))))"
| "malloc_fresh s _ = True"

fun fresh_run :: "state \<Rightarrow> op list \<Rightarrow> bool" where
  "fresh_run s [] = True"
| "fresh_run s (x # xs) =
     (malloc_fresh s x \<and>
      (case exec s x of Some (Inr (s', r)) \<Rightarrow> fresh_run s' xs | _ \<Rightarrow> True))"

subsection \<open>The list in the store\<close>

text \<open>\<open>list_at h p xs\<close>: following \<open>next\<close> from \<open>p\<close> in the store \<open>h\<close> visits exactly the
  nodes of \<open>xs\<close>, in order, and then reaches \<open>NULL\<close>. An entry of \<open>xs\<close> is the node's own
  address, its \<open>ptr\<close> and its \<open>size\<close>.\<close>

type_synonym entry = "addr \<times> addr \<times> nat"

fun list_at :: "(addr \<rightharpoonup> Node) \<Rightarrow> addr \<Rightarrow> entry list \<Rightarrow> bool" where
  "list_at h p [] = (p = NULL)"
| "list_at h p ((a, q, n) # xs) =
     (p = a \<and> a \<noteq> NULL \<and>
      (case h a of
         None \<Rightarrow> False
       | Some c \<Rightarrow> ptr c = q \<and> size' c = n \<and> list_at h (next' c) xs))"

definition node_addrs :: "entry list \<Rightarrow> addr list" where
  "node_addrs xs = map fst xs"

definition block_addrs :: "entry list \<Rightarrow> addr list" where
  "block_addrs xs = map (\<lambda>e. fst (snd e)) xs"

text \<open>The live records, as \<open>(address, size)\<close> pairs in list order.\<close>

definition records :: "entry list \<Rightarrow> (addr \<times> nat) list" where
  "records xs = map snd xs"

text \<open>\<open>tracks s xs\<close>: the registry of \<open>s\<close> is the list \<open>xs\<close> from \<open>head\<close>, and nodes and
  tracked blocks are pairwise distinct blocks the raw allocator has handed out.\<close>

definition tracks :: "state \<Rightarrow> entry list \<Rightarrow> bool" where
  "tracks s xs =
     (list_at (nodes s) (head s) xs \<and>
      distinct (node_addrs xs @ block_addrs xs) \<and>
      NULL \<notin> set (block_addrs xs) \<and>
      set (node_addrs xs @ block_addrs xs) \<subseteq> live s)"

text \<open>What \<open>Report_memory_leaks\<close> prints for a list of records.\<close>

definition report_lines :: "(addr \<times> nat) list \<Rightarrow> msg list" where
  "report_lines rs =
     (if rs = [] then [NoLeaks] else LeaksDetected # map (\<lambda>(q, n). Leaked q n) rs)"

subsection \<open>The history of calls, in the specification's terms\<close>

text \<open>A history is the list of calls made so far, each with what it returned. An
  allocate call is successful when it returns an address other than \<open>NULL\<close>.

  \<open>pending es A\<close>: some allocate call of the history \<open>es\<close> returned the address \<open>A\<close>,
  successfully, and \<open>A\<close> has not been passed to free since.\<close>

fun pending :: "(op \<times> ret) list \<Rightarrow> addr \<Rightarrow> bool" where
  "pending [] A = False"
| "pending ((Malloc sz r1 r2, r) # es) A =
     ((r = Returned A \<and> A \<noteq> NULL \<and> Free A \<notin> fst ` set es) \<or> pending es A)"
| "pending (e # es) A = pending es A"

text \<open>The allocations of a history that are still outstanding, oldest first: a
  successful allocate adds its address and size at the end, a free takes the freed
  address out.\<close>

fun outstanding_step :: "(addr \<times> nat) list \<Rightarrow> op \<times> ret \<Rightarrow> (addr \<times> nat) list" where
  "outstanding_step acc (Malloc sz r1 r2, Returned a) =
     (if a \<noteq> NULL then acc @ [(a, sz)] else acc)"
| "outstanding_step acc (Free p, r) = filter (\<lambda>e. fst e \<noteq> p) acc"
| "outstanding_step acc e = acc"

definition outstanding :: "(op \<times> ret) list \<Rightarrow> (addr \<times> nat) list" where
  "outstanding es = foldl outstanding_step [] es"

subsection \<open>The program's own run\<close>

text \<open>The calls of \<open>main\<close>, the raw allocator answering with the addresses 1 to 4, and
  the state reached after the two \<open>my_malloc\<close> calls.\<close>

definition main_ops :: "op list" where
  "main_ops = [Malloc 10 1 2, Malloc 20 3 4, Free 1, Report, Free 3]"

definition demo :: state where
  "demo = \<lparr>head = 4,
     nodes = [2 \<mapsto> \<lparr>ptr = 1, size' = 10, next' = NULL\<rparr>,
              4 \<mapsto> \<lparr>ptr = 3, size' = 20, next' = 2\<rparr>],
     live = {1, 2, 3, 4},
     calls = [RawMalloc 10 1, RawMalloc sizeof_Node 2, RawMalloc 20 3, RawMalloc sizeof_Node 4],
     out = []\<rparr>"

section \<open>Lemmas\<close>

lemma list_at_upd:
  "a \<notin> set (node_addrs xs) \<Longrightarrow> list_at (h(a := v)) p xs = list_at h p xs"
  by (induction xs arbitrary: p) (auto simp: node_addrs_def split: option.splits)

lemma list_at_unique:
  "list_at h p xs \<Longrightarrow> list_at h p ys \<Longrightarrow> xs = ys"
proof (induction xs arbitrary: p ys)
  case Nil
  then show ?case by (cases ys) auto
next
  case (Cons x xs)
  obtain a q n where x: "x = (a, q, n)" by (cases x)
  from Cons.prems x obtain c where c: "p = a" "a \<noteq> NULL" "h a = Some c"
    "ptr c = q" "size' c = n" "list_at h (next' c) xs"
    by (auto split: option.splits)
  from Cons.prems(2) c obtain ys' where ys: "ys = (a, q, n) # ys'" "list_at h (next' c) ys'"
    by (cases ys) (auto split: option.splits)
  with Cons.IH c x show ?case by simp
qed

text \<open>A state tracks at most one list: the live records are determined by the state.\<close>

lemma tracks_unique: "tracks s xs \<Longrightarrow> tracks s ys \<Longrightarrow> xs = ys"
  unfolding tracks_def by (blast intro: list_at_unique)

lemma report_loop_list:
  "list_at (nodes s) p xs \<Longrightarrow>
   report_loop s p = Some (Inr (s\<lparr>out := out s @ map (\<lambda>(q, n). Leaked q n) (records xs)\<rparr>))"
proof (induction xs arbitrary: s p)
  case Nil
  then show ?case by (subst report_loop.simps) (simp add: records_def)
next
  case (Cons x xs)
  obtain a q n where x: "x = (a, q, n)" by (cases x)
  from Cons.prems x obtain c where c: "p = a" "a \<noteq> NULL" "nodes s a = Some c"
    "ptr c = q" "size' c = n" "list_at (nodes s) (next' c) xs"
    by (auto split: option.splits)
  let ?s = "cout s (Leaked q n)"
  have "list_at (nodes ?s) (next' c) xs" using c by (simp add: cout_def)
  from Cons.IH [OF this] have "report_loop ?s (next' c) =
    Some (Inr (?s\<lparr>out := out ?s @ map (\<lambda>(q, n). Leaked q n) (records xs)\<rparr>))" .
  with c x show ?case
    by (subst report_loop.simps) (simp add: records_def cout_def)
qed

lemma free_loop_untracked:
  "list_at (nodes s) cur xs \<Longrightarrow> p \<notin> set (block_addrs xs) \<Longrightarrow>
   my_free_loop s p cur prev = Some (Inr (cout s (UntrackedFree p)))"
proof (induction xs arbitrary: cur prev)
  case Nil
  then show ?case by (subst my_free_loop.simps) simp
next
  case (Cons x xs)
  obtain a q n where x: "x = (a, q, n)" by (cases x)
  from Cons.prems x obtain c where c: "cur = a" "a \<noteq> NULL" "nodes s a = Some c"
    "ptr c = q" "size' c = n" "list_at (nodes s) (next' c) xs"
    by (auto split: option.splits)
  from Cons.prems x have "q \<noteq> p" "p \<notin> set (block_addrs xs)" by (auto simp: block_addrs_def)
  with Cons.IH [OF c(6), of a] c show ?case
    by (subst my_free_loop.simps) simp
qed

lemma list_at_splice:
  "list_at h x (pre @ (b, q, m) # (a, p, n) # post) \<Longrightarrow>
   distinct (node_addrs (pre @ (b, q, m) # (a, p, n) # post)) \<Longrightarrow>
   h b = Some pn \<Longrightarrow> h a = Some c \<Longrightarrow>
   list_at (h(b \<mapsto> pn\<lparr>next' := next' c\<rparr>)) x (pre @ (b, q, m) # post)"
proof (induction pre arbitrary: x)
  case Nil
  define h' where "h' = h(b \<mapsto> pn\<lparr>next' := next' c\<rparr>)"
  from Nil have f: "x = b" "b \<noteq> NULL" "ptr pn = q" "size' pn = m" "list_at h (next' c) post"
    by (auto split: option.splits)
  from Nil have "b \<notin> set (node_addrs post)" by (simp add: node_addrs_def)
  then have "list_at h' (next' c) post = list_at h (next' c) post"
    unfolding h'_def by (rule list_at_upd)
  moreover have "h' b = Some (pn\<lparr>next' := next' c\<rparr>)" by (simp add: h'_def)
  ultimately have "list_at h' x ((b, q, m) # post)" using f by simp
  then show ?case unfolding h'_def by (simp only: append_Nil)
next
  case (Cons e pre)
  obtain a0 q0 n0 where e: "e = (a0, q0, n0)" by (cases e)
  from Cons.prems e have ne: "a0 \<noteq> b" by (auto simp: node_addrs_def)
  from Cons.prems e obtain c0 where c0: "x = a0" "a0 \<noteq> NULL" "h a0 = Some c0"
    "ptr c0 = q0" "size' c0 = n0" "list_at h (next' c0) (pre @ (b, q, m) # (a, p, n) # post)"
    by (auto split: option.splits)
  from Cons.prems e have "distinct (node_addrs (pre @ (b, q, m) # (a, p, n) # post))"
    by (simp add: node_addrs_def)
  from Cons.IH [OF c0(6) this Cons.prems(3,4)] c0 ne e show ?case by simp
qed

lemma list_at_app_last:
  "list_at h x (pre @ [(b, q, m)] @ rest) \<Longrightarrow> b \<noteq> NULL \<and> (\<exists>pn. h b = Some pn)"
  by (induction pre arbitrary: x) (auto split: option.splits)

lemma list_at_mid:
  "list_at h x (pre @ (a, p, n) # post) \<Longrightarrow> h a = Some c \<Longrightarrow>
   ptr c = p \<and> list_at h (next' c) post"
  by (induction pre arbitrary: x) (auto split: option.splits)

lemma release_ok:
  assumes "nodes s a = Some c" "ptr c = p" "p \<in> live s" "a \<in> live s" "a \<noteq> p"
    "a \<noteq> NULL" "p \<noteq> NULL"
  shows "release s a =
    Inr (s\<lparr>live := live s - {p} - {a}, nodes := (nodes s)(p := None, a := None),
          calls := calls s @ [RawFree p, RawFree a]\<rparr>)"
  using assms by (simp add: release_def raw_free_def)

lemma tracks_parts:
  assumes "tracks s (pre @ (a, p, n) # post)"
  shows "a \<noteq> p" "a \<in> live s" "p \<in> live s" "p \<noteq> NULL"
    "a \<notin> set (node_addrs (pre @ post))" "p \<notin> set (node_addrs (pre @ post))"
    "distinct (node_addrs (pre @ post) @ block_addrs (pre @ post))"
    "NULL \<notin> set (block_addrs (pre @ post))"
    "set (node_addrs (pre @ post) @ block_addrs (pre @ post)) \<subseteq> live s - {p} - {a}"
    "distinct (node_addrs (pre @ (a, p, n) # post))"
    "list_at (nodes s) (head s) (pre @ (a, p, n) # post)"
  using assms by (auto simp: tracks_def node_addrs_def block_addrs_def)

lemma remove_node_tracks:
  assumes t: "tracks s (pre @ (a, p, n) # post)"
    and c: "nodes s a = Some c" "a \<noteq> NULL"
    and prev: "prev = (if pre = [] then NULL else fst (last pre))"
  shows "\<exists>s'. remove_node s a prev c = Inr s' \<and> tracks s' (pre @ post) \<and>
    live s' = live s - {p} - {a} \<and> calls s' = calls s @ [RawFree p, RawFree a] \<and>
    out s' = out s"
proof -
  note P = tracks_parts [OF t]
  have pc: "ptr c = p" "list_at (nodes s) (next' c) post"
    using list_at_mid [OF P(11) c(1)] by simp_all
  show ?thesis
  proof (cases "pre = []")
    case True
    let ?s1 = "s\<lparr>head := next' c\<rparr>"
    have u: "unlink s prev c = Inr ?s1" using prev True by (simp add: unlink_def)
    have r: "release ?s1 a =
      Inr (?s1\<lparr>live := live ?s1 - {p} - {a}, nodes := (nodes ?s1)(p := None, a := None),
            calls := calls ?s1 @ [RawFree p, RawFree a]\<rparr>)"
      using c pc P(1-4) by (intro release_ok) simp_all
    have "list_at ((nodes s)(p := None, a := None)) (next' c) post"
      using pc(2) P(5,6) True by (simp add: list_at_upd)
    then show ?thesis
      using u r P(7-9) True by (simp add: remove_node_def tracks_def)
  next
    case False
    then obtain pre' b q m where pre: "pre = pre' @ [(b, q, m)]"
      by (cases pre rule: rev_cases) auto
    from P(11) pre have "list_at (nodes s) (head s) (pre' @ [(b, q, m)] @ (a, p, n) # post)"
      by simp
    from list_at_app_last [OF this] obtain pn where pn: "nodes s b = Some pn"
      and bnz: "b \<noteq> NULL" by blast
    let ?h1 = "(nodes s)(b \<mapsto> pn\<lparr>next' := next' c\<rparr>)"
    let ?s1 = "s\<lparr>nodes := ?h1\<rparr>"
    have u: "unlink s prev c = Inr ?s1"
      using prev pre pn bnz by (simp add: unlink_def)
    have ab: "a \<noteq> b" using P(5) pre by (simp add: node_addrs_def)
    have r: "release ?s1 a =
      Inr (?s1\<lparr>live := live ?s1 - {p} - {a}, nodes := (nodes ?s1)(p := None, a := None),
            calls := calls ?s1 @ [RawFree p, RawFree a]\<rparr>)"
      using c pc P(1-4) ab by (intro release_ok) simp_all
    have "list_at ?h1 (head s) (pre' @ (b, q, m) # post)"
      using P(10,11) pre pn c(1) by (intro list_at_splice [where a = a and p = p and n = n]) simp_all
    then have "list_at (?h1(p := None, a := None)) (head s) (pre @ post)"
      using P(5,6) pre by (simp add: list_at_upd del: fun_upd_apply)
    then show ?thesis
      using u r P(7-9) by (simp add: remove_node_def tracks_def del: fun_upd_apply)
  qed
qed

lemma free_loop_found:
  assumes "tracks s (pre @ mid @ (a, p, n) # post)"
    and "list_at (nodes s) cur (mid @ (a, p, n) # post)"
    and "p \<notin> set (block_addrs mid)"
    and "prev = (if pre = [] then NULL else fst (last pre))"
  shows "\<exists>s'. my_free_loop s p cur prev = Some (Inr s') \<and> tracks s' (pre @ mid @ post) \<and>
    live s' = live s - {p} - {a} \<and> calls s' = calls s @ [RawFree p, RawFree a] \<and>
    out s' = out s"
  using assms
proof (induction mid arbitrary: pre cur prev)
  case Nil
  then obtain c where c: "cur = a" "a \<noteq> NULL" "nodes s a = Some c" "ptr c = p"
    by (auto split: option.splits)
  from Nil.prems(1) have "tracks s (pre @ (a, p, n) # post)" by simp
  from remove_node_tracks [OF this c(3,2) Nil.prems(4)] c show ?case
    by (subst my_free_loop.simps) simp
next
  case (Cons e mid)
  obtain a0 q0 n0 where e: "e = (a0, q0, n0)" by (cases e)
  from Cons.prems(2) e obtain c0 where c0: "cur = a0" "a0 \<noteq> NULL" "nodes s a0 = Some c0"
    "ptr c0 = q0" "list_at (nodes s) (next' c0) (mid @ (a, p, n) # post)"
    by (auto split: option.splits)
  from Cons.prems(3) e have np: "q0 \<noteq> p" "p \<notin> set (block_addrs mid)"
    by (auto simp: block_addrs_def)
  from Cons.prems(1) have t: "tracks s ((pre @ [e]) @ mid @ (a, p, n) # post)" by simp
  have "a0 = (if pre @ [e] = [] then NULL else fst (last (pre @ [e])))" using e by simp
  from Cons.IH [OF t c0(5) np(2) this] c0 np(1) show ?case
    by (subst my_free_loop.simps) simp
qed

lemma my_free_tracked:
  assumes "tracks s (mid @ (a, p, n) # post)" and "p \<notin> set (block_addrs mid)"
  shows "\<exists>s'. my_free s p = Some (Inr s') \<and> tracks s' (mid @ post) \<and>
    live s' = live s - {p} - {a} \<and> calls s' = calls s @ [RawFree p, RawFree a] \<and>
    out s' = out s"
proof -
  from assms(1) have "p \<noteq> NULL" by (rule tracks_parts)
  moreover from assms(1) have "list_at (nodes s) (head s) (mid @ (a, p, n) # post)"
    by (simp add: tracks_def)
  moreover from assms(1) have "tracks s ([] @ mid @ (a, p, n) # post)" by simp
  ultimately show ?thesis
    using free_loop_found [of s "[]" mid a p n post "head s" NULL] assms(2)
    by (simp add: my_free_def)
qed

lemma my_free_untracked:
  assumes "tracks s xs" and "p \<noteq> NULL" and "p \<notin> set (block_addrs xs)"
  shows "my_free s p = Some (Inr (cout s (UntrackedFree p)))"
  using assms free_loop_untracked [of s "head s" xs p NULL]
  by (simp add: my_free_def tracks_def)

lemma Report_tracks:
  assumes "tracks s xs"
  shows "Report_memory_leaks s = Some (Inr (s\<lparr>out := out s @ report_lines (records xs)\<rparr>))"
proof (cases xs)
  case Nil
  with assms show ?thesis
    by (simp add: Report_memory_leaks_def tracks_def report_lines_def cout_def records_def)
next
  case (Cons e ys)
  with assms have h: "head s \<noteq> NULL" by (cases e) (auto simp: tracks_def)
  from assms have "list_at (nodes (cout s LeaksDetected)) (head s) xs"
    by (simp add: tracks_def cout_def)
  from report_loop_list [OF this] h Cons show ?thesis
    by (simp add: Report_memory_leaks_def report_lines_def cout_def records_def)
qed

lemma my_malloc_zero: "my_malloc s 0 r1 r2 = Inr (s, NULL)"
  by (simp add: my_malloc_def)

lemma my_malloc_alloc_failed:
  "sz \<noteq> 0 \<Longrightarrow> my_malloc s sz NULL r2 =
     Inr (s\<lparr>calls := calls s @ [RawMalloc sz NULL], out := out s @ [AllocationFailed]\<rparr>, NULL)"
  by (simp add: my_malloc_def raw_malloc_def cout_def)

lemma my_malloc_tracking_failed:
  assumes "sz \<noteq> 0" "r1 \<noteq> NULL" "r1 \<notin> live s"
  shows "my_malloc s sz r1 NULL =
     Inr (s\<lparr>nodes := (nodes s)(r1 := None),
            calls := calls s @ [RawMalloc sz r1, RawMalloc sizeof_Node NULL, RawFree r1],
            out := out s @ [TrackingFailed]\<rparr>, NULL)"
  using assms by (simp add: my_malloc_def raw_malloc_def raw_free_def cout_def)

lemma tracks_frame:
  assumes "tracks s xs" "a \<notin> live s"
  shows "tracks (s\<lparr>nodes := (nodes s)(a := v), calls := cs, out := ms\<rparr>) xs"
proof -
  from assms have "a \<notin> set (node_addrs xs)" by (auto simp: tracks_def)
  from list_at_upd [OF this] assms(1) show ?thesis by (simp add: tracks_def)
qed

lemma my_malloc_success:
  assumes t: "tracks s xs" and "sz \<noteq> 0" "r1 \<noteq> NULL" "r2 \<noteq> NULL"
    "r1 \<notin> live s" "r2 \<notin> live s" "r2 \<noteq> r1"
  shows "\<exists>s'. my_malloc s sz r1 r2 = Inr (s', r1) \<and> tracks s' ((r2, r1, sz) # xs) \<and>
    live s' = insert r2 (insert r1 (live s)) \<and>
    calls s' = calls s @ [RawMalloc sz r1, RawMalloc sizeof_Node r2] \<and> out s' = out s"
proof -
  let ?c = "\<lparr>ptr = r1, size' = sz, next' = head s\<rparr>"
  from assms have "r2 \<notin> set (node_addrs xs)" by (auto simp: tracks_def)
  then have "list_at ((nodes s)(r2 \<mapsto> ?c)) (head s) xs = list_at (nodes s) (head s) xs"
    by (rule list_at_upd)
  with t have l: "list_at ((nodes s)(r2 \<mapsto> ?c)) (head s) xs" by (simp add: tracks_def)
  from assms have d: "r1 \<notin> set (node_addrs xs @ block_addrs xs)"
    "r2 \<notin> set (node_addrs xs @ block_addrs xs)" by (auto simp: tracks_def)
  from assms l d show ?thesis
    by (auto simp: my_malloc_def raw_malloc_def tracks_def Let_def node_addrs_def block_addrs_def)
qed

lemma tracks_out_upd: "tracks (s\<lparr>out := ms\<rparr>) xs = tracks s xs"
  by (simp add: tracks_def)

lemma tracks_calls_upd: "tracks (s\<lparr>calls := cs\<rparr>) xs = tracks s xs"
  by (simp add: tracks_def)

lemma filter_fst_id:
  "p \<notin> fst ` set rs \<Longrightarrow> filter (\<lambda>e. fst e \<noteq> p) rs = rs"
  by (induction rs) auto

lemma records_blocks: "map fst (records xs) = block_addrs xs"
  by (simp add: records_def block_addrs_def)

lemma filter_records:
  assumes "distinct (block_addrs (mid @ (a, p, n) # post))"
  shows "filter (\<lambda>e. fst e \<noteq> p) (rev (records (mid @ (a, p, n) # post))) =
    rev (records (mid @ post))"
proof -
  from assms have "p \<notin> set (block_addrs mid)" "p \<notin> set (block_addrs post)"
    by (simp_all add: block_addrs_def)
  then have "p \<notin> fst ` set (records mid)" "p \<notin> fst ` set (records post)"
    by (simp_all add: records_blocks [symmetric])
  then have "filter (\<lambda>e. fst e \<noteq> p) (records mid) = records mid"
    "filter (\<lambda>e. fst e \<noteq> p) (records post) = records post"
    by (simp_all add: filter_fst_id)
  then show ?thesis by (simp add: records_def rev_filter [symmetric])
qed

lemma split_first_block:
  assumes "p \<in> set (block_addrs xs)"
  shows "\<exists>mid a n post. xs = mid @ (a, p, n) # post \<and> p \<notin> set (block_addrs mid)"
proof -
  from assms have "\<exists>e \<in> set xs. fst (snd e) = p" by (auto simp: block_addrs_def)
  from split_list_first_prop [OF this] obtain mid e post where
    "xs = mid @ e # post" "fst (snd e) = p" "\<forall>y \<in> set mid. fst (snd y) \<noteq> p" by blast
  then show ?thesis by (cases e) (auto simp: block_addrs_def)
qed

lemma exec_step:
  assumes t: "tracks s xs" and f: "malloc_fresh s x"
  shows "\<exists>s' r xs'. exec s x = Some (Inr (s', r)) \<and> tracks s' xs' \<and>
    rev (records xs') = outstanding_step (rev (records xs)) (x, r)"
proof (cases x)
  case (Malloc sz r1 r2)
  consider "sz = 0" | "sz \<noteq> 0" "r1 = NULL" | "sz \<noteq> 0" "r1 \<noteq> NULL" "r2 = NULL"
    | "sz \<noteq> 0" "r1 \<noteq> NULL" "r2 \<noteq> NULL" by blast
  then show ?thesis
  proof cases
    case 1
    with t Malloc show ?thesis by (auto simp: my_malloc_zero)
  next
    case 2
    with t Malloc show ?thesis by (auto simp: my_malloc_alloc_failed tracks_out_upd tracks_calls_upd)
  next
    case 3
    with f Malloc have "r1 \<notin> live s" by simp
    with 3 t Malloc show ?thesis
      by (auto simp: my_malloc_tracking_failed intro: tracks_frame)
  next
    case 4
    with f Malloc have "r1 \<notin> live s" "r2 \<notin> live s" "r2 \<noteq> r1" by simp_all
    from my_malloc_success [OF t 4(1-3) this] obtain s' where
      "my_malloc s sz r1 r2 = Inr (s', r1)" "tracks s' ((r2, r1, sz) # xs)" by blast
    with 4 Malloc show ?thesis by (auto simp: records_def)
  qed
next
  case (Free p)
  consider "p = NULL" | "p \<noteq> NULL" "p \<notin> set (block_addrs xs)" | "p \<in> set (block_addrs xs)"
    by blast
  then show ?thesis
  proof cases
    case 1
    from t have "NULL \<notin> fst ` set (rev (records xs))"
      by (simp add: tracks_def records_blocks [symmetric])
    then have "filter (\<lambda>e. fst e \<noteq> NULL) (rev (records xs)) = rev (records xs)"
      by (rule filter_fst_id)
    moreover have "my_free s NULL = Some (Inr s)" by (simp add: my_free_def)
    ultimately show ?thesis using 1 t Free
      by (auto simp: returning_def simp del: neq0_conv)
  next
    case 2
    then have "p \<notin> fst ` set (rev (records xs))" by (simp add: records_blocks [symmetric])
    with my_free_untracked [OF t 2] t Free show ?thesis
      by (auto simp: returning_def filter_fst_id cout_def tracks_out_upd simp del: set_rev)
  next
    case 3
    from split_first_block [OF this] obtain mid a n post where
      xs: "xs = mid @ (a, p, n) # post" "p \<notin> set (block_addrs mid)" by blast
    from t xs have "distinct (block_addrs (mid @ (a, p, n) # post))" by (simp add: tracks_def)
    from filter_records [OF this] xs
    have "filter (\<lambda>e. fst e \<noteq> p) (rev (records xs)) = rev (records (mid @ post))" by simp
    moreover from my_free_tracked [of s mid a p n post] t xs obtain s' where
      "my_free s p = Some (Inr s')" "tracks s' (mid @ post)" by blast
    ultimately show ?thesis using Free by (auto simp: returning_def)
  qed
next
  case Report
  from Report_tracks [OF t] t Report show ?thesis
    by (auto simp: returning_def tracks_def)
qed

lemma run_tracks:
  assumes "tracks s xs" and "fresh_run s ops"
  shows "\<exists>s' rs xs'. run s ops = Some (Inr (s', rs)) \<and> length rs = length ops \<and>
    tracks s' xs' \<and>
    rev (records xs') = foldl outstanding_step (rev (records xs)) (zip ops rs)"
  using assms
proof (induction ops arbitrary: s xs)
  case Nil
  then show ?case by auto
next
  case (Cons x ops)
  from Cons.prems have "malloc_fresh s x" by simp
  from exec_step [OF Cons.prems(1) this] obtain s1 r xs1 where
    e: "exec s x = Some (Inr (s1, r))" "tracks s1 xs1"
    "rev (records xs1) = outstanding_step (rev (records xs)) (x, r)" by blast
  from Cons.prems e have "fresh_run s1 ops" by simp
  from Cons.IH [OF e(2) this] obtain s' rs xs' where
    r: "run s1 ops = Some (Inr (s', rs))" "length rs = length ops" "tracks s' xs'"
    "rev (records xs') = foldl outstanding_step (rev (records xs1)) (zip ops rs)" by blast
  have "run s (x # ops) = Some (Inr (s', r # rs))" using e r by simp
  moreover have "rev (records xs') =
    foldl outstanding_step (rev (records xs)) (zip (x # ops) (r # rs))" using e r by simp
  ultimately show ?case using r by auto
qed

lemma tracks_init: "tracks init []"
  by (simp add: tracks_def init_def node_addrs_def block_addrs_def)

text \<open>Every state the program reaches from its initial state is well formed, and every
  call on the way returns without undefined behaviour.\<close>

lemma reachable_tracks:
  "fresh_run init ops \<Longrightarrow> \<exists>s rs xs. run init ops = Some (Inr (s, rs)) \<and> tracks s xs"
  using run_tracks [OF tracks_init] by blast

lemma pending_Cons:
  "pending (e # es) A =
     ((\<exists>sz r1 r2. e = (Malloc sz r1 r2, Returned A) \<and> A \<noteq> NULL \<and> Free A \<notin> fst ` set es) \<or>
      pending es A)"
  by (cases "(e # es, A)" rule: pending.cases) auto

lemma pending_snoc:
  "pending (es @ [e]) A =
     ((\<exists>sz r1 r2. e = (Malloc sz r1 r2, Returned A) \<and> A \<noteq> NULL) \<or>
      (pending es A \<and> fst e \<noteq> Free A))"
proof (induction es)
  case Nil
  show ?case by (simp add: pending_Cons)
next
  case (Cons x es)
  show ?case
    unfolding append_Cons pending_Cons [of x] Cons.IH by auto
qed

lemma outstanding_step_addrs:
  "A \<in> fst ` set (outstanding_step acc e) \<longleftrightarrow>
     (\<exists>sz r1 r2. e = (Malloc sz r1 r2, Returned A) \<and> A \<noteq> NULL) \<or>
     (A \<in> fst ` set acc \<and> fst e \<noteq> Free A)"
  by (cases "(acc, e)" rule: outstanding_step.cases) auto

lemma outstanding_pending:
  "A \<in> fst ` set (outstanding es) \<longleftrightarrow> pending es A"
proof (induction es rule: rev_induct)
  case Nil
  then show ?case by (simp add: outstanding_def)
next
  case (snoc e es)
  have "outstanding (es @ [e]) = outstanding_step (outstanding es) e"
    by (simp add: outstanding_def)
  with snoc show ?case by (simp only: outstanding_step_addrs pending_snoc)
qed

lemma run_main_prefix:
  "run init [Malloc 10 1 2, Malloc 20 3 4] = Some (Inr (demo, [Returned 1, Returned 3]))"
  by (simp add: init_def demo_def my_malloc_def raw_malloc_def Let_def insert_commute)

lemma tracks_demo: "tracks demo [(4, 3, 20), (2, 1, 10)]"
  by (simp add: demo_def tracks_def node_addrs_def block_addrs_def)

lemma fresh_run_main: "fresh_run init main_ops"
  by (simp add: main_ops_def init_def my_malloc_def raw_malloc_def Let_def
    my_free_def my_free_loop.simps returning_def remove_node_def unlink_def release_def
    raw_free_def Report_memory_leaks_def report_loop.simps cout_def)

lemma run_append:
  assumes "run s xs = Some (Inr (s', rs))"
  shows "run s (xs @ ys) =
    (case run s' ys of
       Some (Inr (s'', rs')) \<Rightarrow> Some (Inr (s'', rs @ rs'))
     | other \<Rightarrow> other)"
  using assms
proof (induction xs arbitrary: s rs)
  case Nil
  then show ?case by (auto split: option.splits sum.splits)
next
  case (Cons x xs)
  from Cons.prems obtain s1 r rs1 where
    e: "exec s x = Some (Inr (s1, r))" "run s1 xs = Some (Inr (s', rs1))" "rs = r # rs1"
    by (auto split: option.splits sum.splits)
  from Cons.IH [OF e(2)] e show ?case by (auto split: option.splits sum.splits)
qed

lemma outstanding_mallocs:
  assumes "length ps = length as" and "NULL \<notin> set ps"
  shows "map fst (foldl outstanding_step acc
      (zip (map (\<lambda>(sz, r1, r2). Malloc sz r1 r2) as) (map Returned ps))) = map fst acc @ ps"
  using assms
proof (induction as arbitrary: ps acc)
  case Nil
  then show ?case by simp
next
  case (Cons a as)
  then obtain p ps' where ps: "ps = p # ps'" by (cases ps) auto
  obtain sz r1 r2 where a: "a = (sz, r1, r2)" by (cases a)
  from Cons.prems ps have "length ps' = length as" "NULL \<notin> set ps'" "p \<noteq> NULL" by auto
  with Cons.IH [of ps' "acc @ [(p, sz)]"] ps a show ?case by simp
qed

lemma free_all:
  assumes "tracks s xs" and "distinct fs" and "set fs = set (block_addrs xs)"
  shows "\<exists>s'. run s (map Free fs) = Some (Inr (s', map (\<lambda>p. Void) fs)) \<and> tracks s' [] \<and>
    out s' = out s"
  using assms
proof (induction fs arbitrary: s xs)
  case Nil
  then have "xs = []" by (simp add: block_addrs_def)
  with Nil show ?case by simp
next
  case (Cons p fs)
  then have "p \<in> set (block_addrs xs)" by auto
  from split_first_block [OF this] obtain mid a n post where
    xs: "xs = mid @ (a, p, n) # post" "p \<notin> set (block_addrs mid)" by blast
  with my_free_tracked [of s mid a p n post] Cons.prems(1) obtain s1 where
    s1: "my_free s p = Some (Inr s1)" "tracks s1 (mid @ post)" "out s1 = out s" by blast
  from Cons.prems(1) xs have "distinct (block_addrs xs)" by (simp add: tracks_def)
  with xs have "set (block_addrs (mid @ post)) = set (block_addrs xs) - {p}"
    by (auto simp: block_addrs_def)
  with Cons.prems have "distinct fs" "set fs = set (block_addrs (mid @ post))" by auto
  from Cons.IH [OF s1(2) this] obtain s' where
    "run s1 (map Free fs) = Some (Inr (s', map (\<lambda>p. Void) fs))" "tracks s' []"
    "out s' = out s1" by blast
  with s1 show ?case by (simp add: returning_def)
qed

section \<open>The claims\<close>

text \<open>
  The claims about well-formed registries are stated for any state \<open>s\<close> and list \<open>xs\<close> with
  \<open>tracks s xs\<close>; by \<open>reachable_tracks\<close> these include every state the program reaches.
\<close>

text \<open>
  C1. Start from a well-formed state with an empty registry. Let any number of
  \<open>my_malloc\<close> calls all succeed (each returns a non-null address), the raw allocator
  answering as \<open>malloc\<close> may; then call \<open>my_free\<close> once on each address returned, in any
  order, without repeating one; then call \<open>Report_memory_leaks\<close>. Every call returns, the
  registry is empty at the end, and the frees and the report together write one line only,
  the no-leaks line.
\<close>

theorem allocate_then_free_all_no_leaks:
  assumes "tracks s []"
    and "fresh_run s (map (\<lambda>(sz, r1, r2). Malloc sz r1 r2) as)"
    and "run s (map (\<lambda>(sz, r1, r2). Malloc sz r1 r2) as) = Some (Inr (s1, map Returned ps))"
    and "NULL \<notin> set ps"
    and "distinct fs" and "set fs = set ps"
  shows "\<exists>s2. run s (map (\<lambda>(sz, r1, r2). Malloc sz r1 r2) as @ map Free fs @ [Report]) =
      Some (Inr (s2, map Returned ps @ map (\<lambda>p. Void) fs @ [Void])) \<and>
    tracks s2 [] \<and> out s2 = out s1 @ [NoLeaks]"
proof -
  let ?ms = "map (\<lambda>(sz, r1, r2). Malloc sz r1 r2) as"
  from run_tracks [OF assms(1,2)] assms(3) obtain xs1 where
    r: "length (map Returned ps) = length ?ms" "tracks s1 xs1"
    "rev (records xs1) = foldl outstanding_step (rev (records [])) (zip ?ms (map Returned ps))"
    by auto
  from r(1) have "length ps = length as" by simp
  from outstanding_mallocs [OF this assms(4), of "[]"] r(3)
  have "map fst (rev (records xs1)) = ps" by (simp add: records_def)
  then have "set ps = set (map fst (rev (records xs1)))" by simp
  then have "set (block_addrs xs1) = set ps"
    by (simp add: records_blocks [symmetric])
  with assms have "set fs = set (block_addrs xs1)" by simp
  from free_all [OF r(2) assms(5) this] obtain s' where
    f: "run s1 (map Free fs) = Some (Inr (s', map (\<lambda>p. Void) fs))" "tracks s' []"
    "out s' = out s1" by blast
  let ?s2 = "s'\<lparr>out := out s' @ report_lines (records [])\<rparr>"
  from Report_tracks [OF f(2)] have "run s' [Report] = Some (Inr (?s2, [Void]))"
    by (simp add: returning_def)
  with run_append [OF f(1), of "[Report]"]
  have "run s1 (map Free fs @ [Report]) = Some (Inr (?s2, map (\<lambda>p. Void) fs @ [Void]))"
    by simp
  with run_append [OF assms(3), of "map Free fs @ [Report]"]
  have "run s (?ms @ map Free fs @ [Report]) =
    Some (Inr (?s2, map Returned ps @ map (\<lambda>p. Void) fs @ [Void]))" by simp
  moreover have "tracks ?s2 []" using f(2) by (simp add: tracks_out_upd)
  moreover have "out ?s2 = out s1 @ [NoLeaks]"
    using f(3) by (simp add: report_lines_def records_def)
  ultimately show ?thesis by blast
qed

theorem allocate_then_free_all_no_leaks_witness:
  "tracks init [] \<and>
   fresh_run init (map (\<lambda>(sz, r1, r2). Malloc sz r1 r2) [(10, 1, 2), (20, 3, 4)]) \<and>
   run init (map (\<lambda>(sz, r1, r2). Malloc sz r1 r2) [(10, 1, 2), (20, 3, 4)]) =
     Some (Inr (demo, map Returned [1, 3])) \<and>
   NULL \<notin> set [1, 3 :: addr] \<and> distinct [3, 1 :: addr] \<and> set [3, 1 :: addr] = set [1, 3] \<and>
   (\<exists>s2. run init (map (\<lambda>(sz, r1, r2). Malloc sz r1 r2) [(10, 1, 2), (20, 3, 4)] @
        map Free [3, 1] @ [Report]) =
      Some (Inr (s2, map Returned [1, 3] @ map (\<lambda>p. Void) [3, 1 :: addr] @ [Void])) \<and>
    tracks s2 [] \<and> out s2 = out demo @ [NoLeaks])"
proof -
  have h: "tracks init []"
    "fresh_run init (map (\<lambda>(sz, r1, r2). Malloc sz r1 r2) [(10, 1, 2), (20, 3, 4)])"
    "run init (map (\<lambda>(sz, r1, r2). Malloc sz r1 r2) [(10, 1, 2), (20, 3, 4)]) =
       Some (Inr (demo, map Returned [1, 3]))"
    "NULL \<notin> set [1, 3 :: addr]" "distinct [3, 1 :: addr]" "set [3, 1 :: addr] = set [1, 3]"
  proof -
    show "tracks init []" by (rule tracks_init)
    show "fresh_run init (map (\<lambda>(sz, r1, r2). Malloc sz r1 r2) [(10, 1, 2), (20, 3, 4)])"
      by (simp add: init_def my_malloc_def raw_malloc_def Let_def)
    show "run init (map (\<lambda>(sz, r1, r2). Malloc sz r1 r2) [(10, 1, 2), (20, 3, 4)]) =
       Some (Inr (demo, map Returned [1, 3]))"
      using run_main_prefix by simp
  qed auto
  from h allocate_then_free_all_no_leaks [OF h] show ?thesis by blast
qed

text \<open>
  C2. Make any sequence of \<open>my_malloc\<close>, \<open>my_free\<close> and \<open>Report_memory_leaks\<close> calls from
  the initial state, the raw allocator answering as \<open>malloc\<close> may (\<open>NULL\<close>, or a block that
  is not currently allocated). Every call returns, without undefined behaviour, and in the
  state reached the list holds a record for address \<open>A\<close> exactly when some earlier
  \<open>my_malloc\<close> returned \<open>A\<close> successfully and \<open>A\<close> was not passed to \<open>my_free\<close> since. No
  two records of the list hold the same address. (A \<open>my_free\<close> of an address that has a
  record always removes it, so "not passed to a successful free since" and "not passed to
  free since" say the same.)
\<close>

theorem registry_matches_history:
  assumes "fresh_run init ops"
  shows "\<exists>s rs xs. run init ops = Some (Inr (s, rs)) \<and> tracks s xs \<and>
    (\<forall>A. (A \<in> set (block_addrs xs)) = pending (zip ops rs) A) \<and>
    distinct (block_addrs xs)"
proof -
  from run_tracks [OF tracks_init assms] obtain s rs xs where
    r: "run init ops = Some (Inr (s, rs))" "tracks s xs"
    "rev (records xs) = foldl outstanding_step (rev (records [])) (zip ops rs)" by blast
  from r(3) have "rev (records xs) = outstanding (zip ops rs)"
    by (simp add: outstanding_def records_def)
  then have "set (rev (records xs)) = set (outstanding (zip ops rs))" by simp
  then have "set (block_addrs xs) = fst ` set (outstanding (zip ops rs))"
    by (simp add: records_blocks [symmetric])
  then have "\<forall>A. (A \<in> set (block_addrs xs)) = pending (zip ops rs) A"
    by (simp add: outstanding_pending)
  moreover from r(2) have "distinct (block_addrs xs)" by (simp add: tracks_def)
  ultimately show ?thesis using r by blast
qed

theorem registry_matches_history_witness:
  "fresh_run init main_ops \<and>
   (\<exists>s rs xs. run init main_ops = Some (Inr (s, rs)) \<and> tracks s xs \<and>
    (\<forall>A. (A \<in> set (block_addrs xs)) = pending (zip main_ops rs) A) \<and>
    distinct (block_addrs xs))"
  using registry_matches_history [OF fresh_run_main] fresh_run_main by blast

text \<open>
  C3. In a well-formed registry, \<open>my_free\<close> of a non-null address that no live record
  holds walks the whole list, returns normally, and leaves the state as it was except for
  one line written to \<open>cout\<close>, the untracked-pointer message with that address. The list,
  the node store, the set of live raw blocks and the log of raw allocator calls are the
  same: no raw \<open>free\<close> is made.
\<close>

theorem my_free_untracked_noop:
  assumes "tracks s xs" and "p \<noteq> NULL" and "p \<notin> set (block_addrs xs)"
  shows "my_free s p = Some (Inr (s\<lparr>out := out s @ [UntrackedFree p]\<rparr>))"
  using my_free_untracked [OF assms] by (simp add: cout_def)

theorem my_free_untracked_noop_witness:
  "tracks demo [(4, 3, 20), (2, 1, 10)] \<and> (7::addr) \<noteq> NULL \<and>
   7 \<notin> set (block_addrs [(4, 3, 20), (2, 1, 10)]) \<and>
   my_free demo 7 = Some (Inr (demo\<lparr>out := out demo @ [UntrackedFree 7]\<rparr>))"
proof -
  have h: "tracks demo [(4, 3, 20), (2, 1, 10)]" "(7::addr) \<noteq> NULL"
    "7 \<notin> set (block_addrs [(4, 3, 20), (2, 1, 10)])"
    by (rule tracks_demo) (simp_all add: block_addrs_def)
  from h my_free_untracked_noop [OF h] show ?thesis by simp
qed

text \<open>
  C4. When \<open>malloc(size)\<close> returns a fresh block \<open>r1\<close> and \<open>malloc(sizeof(Node))\<close> then
  returns \<open>NULL\<close>, \<open>my_malloc\<close> frees \<open>r1\<close> again before it returns \<open>NULL\<close>: the raw calls
  made are the two \<open>malloc\<close>s and the \<open>free\<close> of \<open>r1\<close>, the set of live raw blocks is what
  it was before the call, the registry holds the same records, and the tracking-failure
  message is written.
\<close>

theorem my_malloc_tracking_failure_releases:
  assumes "tracks s xs" and "sz \<noteq> 0" and "r1 \<noteq> NULL" and "r1 \<notin> live s"
  shows "\<exists>s'. my_malloc s sz r1 NULL = Inr (s', NULL) \<and> tracks s' xs \<and>
    head s' = head s \<and> live s' = live s \<and>
    calls s' = calls s @ [RawMalloc sz r1, RawMalloc sizeof_Node NULL, RawFree r1] \<and>
    out s' = out s @ [TrackingFailed]"
  using assms by (simp add: my_malloc_tracking_failed tracks_frame)

theorem my_malloc_tracking_failure_releases_witness:
  "tracks demo [(4, 3, 20), (2, 1, 10)] \<and> (8::nat) \<noteq> 0 \<and> (5::addr) \<noteq> NULL \<and> 5 \<notin> live demo \<and>
   (\<exists>s'. my_malloc demo 8 5 NULL = Inr (s', NULL) \<and> tracks s' [(4, 3, 20), (2, 1, 10)] \<and>
    head s' = head demo \<and> live s' = live demo \<and>
    calls s' = calls demo @ [RawMalloc 8 5, RawMalloc sizeof_Node NULL, RawFree 5] \<and>
    out s' = out demo @ [TrackingFailed])"
proof -
  have h: "tracks demo [(4, 3, 20), (2, 1, 10)]" "(8::nat) \<noteq> 0" "(5::addr) \<noteq> NULL"
    "5 \<notin> live demo"
    by (rule tracks_demo) (simp_all add: demo_def)
  from h my_malloc_tracking_failure_releases [OF h] show ?thesis by blast
qed

text \<open>
  C5, as stated, fails. \<open>my_malloc\<close> returns the same value, \<open>NULL\<close>, in its three
  outcomes without an allocation: for size 0, when \<open>malloc(size)\<close> fails, and when the
  \<open>malloc\<close> of the node fails. The value returned does not tell the caller which occurred.
\<close>

theorem my_malloc_failures_same_value:
  "value_returned (my_malloc init 0 NULL NULL) = Some NULL \<and>
   value_returned (my_malloc init 8 NULL NULL) = Some NULL \<and>
   value_returned (my_malloc init 8 1 NULL) = Some NULL"
  by (simp add: value_returned_def my_malloc_def init_def raw_malloc_def raw_free_def Let_def)

text \<open>
  C5, amended. In every state the three outcomes all return \<open>NULL\<close>, and they differ in
  what is written to \<open>cout\<close>: nothing for size 0, the allocation-failure line when
  \<open>malloc(size)\<close> returns \<open>NULL\<close>, the tracking-failure line when \<open>malloc(size)\<close> succeeds
  and the \<open>malloc\<close> of the node returns \<open>NULL\<close>.
\<close>

theorem my_malloc_failures_differ_by_message:
  assumes "sz \<noteq> 0" and "r1 \<noteq> NULL"
  shows "\<exists>s0 s1 s2.
    my_malloc s 0 q1 q2 = Inr (s0, NULL) \<and>
    my_malloc s sz NULL q2 = Inr (s1, NULL) \<and>
    my_malloc s sz r1 NULL = Inr (s2, NULL) \<and>
    out s0 = out s \<and> out s1 = out s @ [AllocationFailed] \<and> out s2 = out s @ [TrackingFailed]"
  using assms by (simp add: my_malloc_def raw_malloc_def raw_free_def cout_def Let_def)

theorem my_malloc_failures_differ_by_message_witness:
  "(8::nat) \<noteq> 0 \<and> (1::addr) \<noteq> NULL \<and>
   (\<exists>s0 s1 s2.
    my_malloc init 0 NULL NULL = Inr (s0, NULL) \<and>
    my_malloc init 8 NULL NULL = Inr (s1, NULL) \<and>
    my_malloc init 8 1 NULL = Inr (s2, NULL) \<and>
    out s0 = out init \<and> out s1 = out init @ [AllocationFailed] \<and>
    out s2 = out init @ [TrackingFailed])"
proof -
  have h: "(8::nat) \<noteq> 0" "(1::addr) \<noteq> NULL" by simp_all
  from h my_malloc_failures_differ_by_message [OF h, of init NULL NULL] show ?thesis by blast
qed

text \<open>
  C6. After any sequence of calls from the initial state (the raw allocator answering as
  \<open>malloc\<close> may), the records of the list are the outstanding allocations of the history,
  each with the address returned and the size asked for, the most recently allocated first;
  and \<open>Report_memory_leaks\<close> returns having written exactly these: the no-leaks line when
  there is none, otherwise the heading and one line per record with its address and size,
  in list order.
\<close>

theorem Report_enumerates_newest_first:
  assumes "fresh_run init ops"
  shows "\<exists>s rs xs. run init ops = Some (Inr (s, rs)) \<and> tracks s xs \<and>
    records xs = rev (outstanding (zip ops rs)) \<and>
    Report_memory_leaks s = Some (Inr (s\<lparr>out := out s @ report_lines (records xs)\<rparr>))"
proof -
  from run_tracks [OF tracks_init assms] obtain s rs xs where
    r: "run init ops = Some (Inr (s, rs))" "tracks s xs"
    "rev (records xs) = foldl outstanding_step (rev (records [])) (zip ops rs)" by blast
  from r(3) have "rev (records xs) = outstanding (zip ops rs)"
    by (simp add: outstanding_def records_def)
  then have "records xs = rev (outstanding (zip ops rs))" by (simp add: rev_swap)
  with r Report_tracks [OF r(2)] show ?thesis by blast
qed

theorem Report_enumerates_newest_first_witness:
  "fresh_run init main_ops \<and>
   (\<exists>s rs xs. run init main_ops = Some (Inr (s, rs)) \<and> tracks s xs \<and>
    records xs = rev (outstanding (zip main_ops rs)) \<and>
    Report_memory_leaks s = Some (Inr (s\<lparr>out := out s @ report_lines (records xs)\<rparr>)))"
  using Report_enumerates_newest_first [OF fresh_run_main] fresh_run_main by blast

text \<open>
  C7. \<open>my_malloc(0)\<close> returns \<open>NULL\<close> and leaves the state as it was, whatever the raw
  allocator would have answered: no node, no raw call, nothing written. Hence whatever
  calls follow, a report among them, end in the same state with the same results as they
  would have without the zero-size call.
\<close>

theorem my_malloc_zero_noop:
  "my_malloc s 0 r1 r2 = Inr (s, NULL) \<and>
   run s (Malloc 0 r1 r2 # ops) =
     (case run s ops of
        Some (Inr (s', rs)) \<Rightarrow> Some (Inr (s', Returned NULL # rs))
      | other \<Rightarrow> other)"
  by (simp add: my_malloc_def split: option.splits sum.splits)

text \<open>
  C8. In a well-formed registry holding any list of records, empty or not,
  \<open>Report_memory_leaks\<close> returns, and it leaves \<open>head\<close>, the node store, the set of live raw
  blocks and the log of raw calls as they were: the registry holds the same records in the
  same order. Only \<open>cout\<close> grows.
\<close>

theorem Report_read_only:
  assumes "tracks s xs"
  shows "\<exists>s'. Report_memory_leaks s = Some (Inr s') \<and> tracks s' xs \<and>
    head s' = head s \<and> nodes s' = nodes s \<and> live s' = live s \<and> calls s' = calls s"
  using Report_tracks [OF assms] assms by (simp add: tracks_out_upd)

theorem Report_read_only_witness:
  "tracks demo [(4, 3, 20), (2, 1, 10)] \<and>
   (\<exists>s'. Report_memory_leaks demo = Some (Inr s') \<and> tracks s' [(4, 3, 20), (2, 1, 10)] \<and>
    head s' = head demo \<and> nodes s' = nodes demo \<and> live s' = live demo \<and>
    calls s' = calls demo)"
  using Report_read_only [OF tracks_demo] tracks_demo by blast

text \<open>
  C9. \<open>my_free(NULL)\<close> returns at once in every state, and the state it leaves is the
  state it found: no record is removed, the log of raw allocator calls is the same, and
  nothing is written, so no untracked-free line either.
\<close>

theorem my_free_null: "my_free s NULL = Some (Inr s)"
  by (simp add: my_free_def)

text \<open>
  C10. In a well-formed registry, \<open>my_free\<close> of an address that some live record holds
  returns, and the list it leaves is the list it found with one entry taken out: the first
  entry, in list order, whose \<open>ptr\<close> is that address. The entries before it and after it
  stay, in the same order. The block and the node of the removed entry are freed at the raw
  allocator, in this order, and nothing is written.
\<close>

theorem my_free_removes_first_match:
  assumes "tracks s xs" and "p \<in> set (block_addrs xs)"
  shows "\<exists>s' mid a n post. xs = mid @ (a, p, n) # post \<and> p \<notin> set (block_addrs mid) \<and>
    my_free s p = Some (Inr s') \<and> tracks s' (mid @ post) \<and>
    live s' = live s - {p} - {a} \<and> calls s' = calls s @ [RawFree p, RawFree a] \<and>
    out s' = out s"
proof -
  from split_first_block [OF assms(2)] obtain mid a n post where
    xs: "xs = mid @ (a, p, n) # post" "p \<notin> set (block_addrs mid)" by blast
  with my_free_tracked [of s mid a p n post] assms(1) obtain s' where
    "my_free s p = Some (Inr s')" "tracks s' (mid @ post)"
    "live s' = live s - {p} - {a}" "calls s' = calls s @ [RawFree p, RawFree a]"
    "out s' = out s" by blast
  with xs show ?thesis by blast
qed

theorem my_free_removes_first_match_witness:
  "tracks demo [(4, 3, 20), (2, 1, 10)] \<and> 1 \<in> set (block_addrs [(4, 3, 20), (2, 1, 10)]) \<and>
   (\<exists>s' mid a n post. [(4, 3, 20), (2, 1, 10)] = mid @ (a, 1, n) # post \<and>
      1 \<notin> set (block_addrs mid) \<and>
      my_free demo 1 = Some (Inr s') \<and> tracks s' (mid @ post) \<and>
      live s' = live demo - {1} - {a} \<and> calls s' = calls demo @ [RawFree 1, RawFree a] \<and>
      out s' = out demo)"
proof -
  have h: "tracks demo [(4, 3, 20), (2, 1, 10)]" "1 \<in> set (block_addrs [(4, 3, 20), (2, 1, 10)])"
    by (rule tracks_demo) (simp add: block_addrs_def)
  from h my_free_removes_first_match [OF h] show ?thesis by blast
qed

end
